theory Spec2Isabelle
  imports Main "HOL-Library.Word"
begin

unbundle bit_operations_syntax

section \<open>The configuration header \<open>Sources/CLibdwarf/include/config.h\<close>\<close>

subsection \<open>Preprocessing tokens, macro environments and directives\<close>

text \<open>
  The header consists of preprocessor directives only. Its meaning is the change
  it makes to the macro environment of the translation unit that includes it.
  A replacement list is a list of preprocessing tokens; the header uses numbers,
  string literals and identifiers, and defines object-like macros only.
\<close>

datatype pp_token = Ident string | Number string | StringLit string

text \<open>
  The macro environment is finite: an association list from macro names to
  replacement lists, with at most one entry for a name that was introduced by
  \<open>define_macro\<close>. Defining a name that is defined already replaces its
  replacement list, which is what compilers do after their diagnostic.
\<close>

type_synonym macro_env = "(string \<times> pp_token list) list"

definition undef_macro :: "string \<Rightarrow> macro_env \<Rightarrow> macro_env" where
  "undef_macro n env = filter (\<lambda>kv. fst kv \<noteq> n) env"

definition define_macro :: "string \<Rightarrow> pp_token list \<Rightarrow> macro_env \<Rightarrow> macro_env" where
  "define_macro n body env = (n, body) # undef_macro n env"

definition is_defined :: "macro_env \<Rightarrow> string \<Rightarrow> bool" where
  "is_defined env n = (map_of env n \<noteq> None)"

text \<open>
  The two conditions the header tests: \<open>#if defined(X)\<close> and \<open>#ifndef X\<close>.
\<close>

datatype pp_cond = Defined string | NotDefined string

fun eval_cond :: "pp_cond \<Rightarrow> macro_env \<Rightarrow> bool" where
  "eval_cond (Defined n) env = is_defined env n"
| "eval_cond (NotDefined n) env = (\<not> is_defined env n)"

datatype directive =
    Define string "pp_token list"
  | Undef string
  | Include string
  | IfElse pp_cond "directive list" "directive list"

text \<open>
  What \<open>#include <stdint.h>\<close> does to the macro environment is decided by the
  system header, which is not part of the repository: it is the parameter
  \<open>inc\<close>, from the name of the included file to its effect.
\<close>

type_synonym include_effect = "string \<Rightarrow> macro_env \<Rightarrow> macro_env"

fun run_directive :: "include_effect \<Rightarrow> directive \<Rightarrow> macro_env \<Rightarrow> macro_env"
  and run_directives :: "include_effect \<Rightarrow> directive list \<Rightarrow> macro_env \<Rightarrow> macro_env" where
  "run_directive inc (Define n body) env = define_macro n body env"
| "run_directive inc (Undef n) env = undef_macro n env"
| "run_directive inc (Include h) env = inc h env"
| "run_directive inc (IfElse c t e) env =
     (if eval_cond c env then run_directives inc t env else run_directives inc e env)"
| "run_directives inc [] env = env"
| "run_directives inc (d # ds) env = run_directives inc ds (run_directive inc d env)"

subsection \<open>The header, directive by directive\<close>

definition posix_headers :: "directive list" where
  "posix_headers =
    [Define ''AC_APPLE_UNIVERSAL_BUILD'' [Number ''0''],
     Define ''CRAY_STACKSEG_END'' [Number ''0''],
     Define ''HAVE_DLFCN_H'' [Number ''1''],
     Define ''HAVE_UNISTD_H'' [Number ''1''],
     Define ''HAVE_SYS_TYPES_H'' [Number ''1''],
     Define ''HAVE_STDINT_H'' [Number ''1''],
     Define ''HAVE_INTTYPES_H'' [Number ''1''],
     Define ''HAVE_STDDEF_H'' [Number ''1''],
     Define ''HAVE_FCNTL_H'' [Number ''1''],
     Define ''HAVE_SYS_STAT_H'' [Number ''1''],
     Define ''STDC_HEADERS'' [Number ''1'']]"

definition legacy_headers :: "directive list" where
  "legacy_headers = [Undef ''HAVE_MALLOC_H'', Undef ''HAVE_STDAFX_H'']"

definition memory_mapping :: "directive list" where
  "memory_mapping = [Define ''HAVE_FULL_MMAP'' [Number ''1'']]"

definition endianness :: "directive list" where
  "endianness =
    [IfElse (Defined ''__BIG_ENDIAN__'')
       [Define ''WORDS_BIGENDIAN'' [Number ''1'']]
       [Undef ''WORDS_BIGENDIAN'']]"

definition compression_backends :: "directive list" where
  "compression_backends =
    [Undef ''HAVE_ZLIB'', Undef ''HAVE_ZLIB_H'', Undef ''HAVE_ZSTD'', Undef ''HAVE_ZSTD_H'']"

definition package_identity :: "directive list" where
  "package_identity =
    [Define ''PACKAGE'' [StringLit ''libdwarf''],
     Define ''PACKAGE_NAME'' [StringLit ''libdwarf''],
     Define ''PACKAGE_TARNAME'' [StringLit ''libdwarf''],
     Define ''PACKAGE_VERSION'' [StringLit ''0.0.0''],
     Define ''PACKAGE_STRING'' [Ident ''PACKAGE'', StringLit '' '', Ident ''PACKAGE_VERSION''],
     Define ''PACKAGE_BUGREPORT'' [StringLit []],
     Define ''PACKAGE_URL'' [StringLit ''https://www.prevanders.net/libdwarf.html''],
     Define ''LT_OBJDIR'' [StringLit ''.libs/'']]"

definition stack_direction :: "directive list" where
  "stack_direction = [Define ''STACK_DIRECTION'' [Number ''0'']]"

text \<open>The body between the include guard's \<open>#define\<close> and the closing \<open>#endif\<close>.\<close>

definition config_body :: "directive list" where
  "config_body =
     Include ''stdint.h'' #
     posix_headers @ legacy_headers @ memory_mapping @ endianness @
     compression_backends @ package_identity @ stack_direction"

definition config_h :: "directive list" where
  "config_h =
    [IfElse (NotDefined ''LIBDWARF_SWIFT_CONFIG_H'')
       (Define ''LIBDWARF_SWIFT_CONFIG_H'' [] # config_body)
       []]"

text \<open>Including the header in a translation unit whose macro environment is \<open>env\<close>.\<close>

definition include_config :: "include_effect \<Rightarrow> macro_env \<Rightarrow> macro_env" where
  "include_config inc env = run_directives inc config_h env"

subsection \<open>Macro replacement\<close>

text \<open>
  Replacement of object-like macros with rescanning: an identifier that names a
  macro is replaced by the expansion of its replacement list, and a macro name is
  not replaced again inside its own expansion (the names in \<open>hide\<close>).
\<close>

function expand :: "macro_env \<Rightarrow> string list \<Rightarrow> pp_token list \<Rightarrow> pp_token list" where
  "expand env hide [] = []"
| "expand env hide (Ident x # ts) =
     (case map_of env x of
        None \<Rightarrow> Ident x # expand env hide ts
      | Some body \<Rightarrow>
          if x \<in> set hide then Ident x # expand env hide ts
          else expand env (x # hide) body @ expand env hide ts)"
| "expand env hide (Number n # ts) = Number n # expand env hide ts"
| "expand env hide (StringLit s # ts) = StringLit s # expand env hide ts"
  by pat_completeness auto
termination
proof (relation "measures [\<lambda>(env, hide, ts). card (fst ` set env - set hide),
                           \<lambda>(env, hide, ts). length ts]")
  fix env :: macro_env and hide :: "string list" and x :: string
    and ts body :: "pp_token list"
  assume look: "map_of env x = Some body" and fresh: "x \<notin> set hide"
  from look have "x \<in> fst ` set env"
    by (metis map_of_eq_None_iff option.distinct(1))
  with fresh have "fst ` set env - set (x # hide) \<subset> fst ` set env - set hide"
    by auto
  then have "card (fst ` set env - set (x # hide)) < card (fst ` set env - set hide)"
    by (intro psubset_card_mono) auto
  then show "((env, x # hide, body), (env, hide, Ident x # ts))
      \<in> measures [\<lambda>(env, hide, ts). card (fst ` set env - set hide),
                   \<lambda>(env, hide, ts). length ts]"
    by simp
qed auto

text \<open>Adjacent string literals are concatenated after macro replacement.\<close>

fun concat_adjacent :: "pp_token list \<Rightarrow> pp_token list" where
  "concat_adjacent (StringLit a # StringLit b # ts) = concat_adjacent (StringLit (a @ b) # ts)"
| "concat_adjacent (t # ts) = t # concat_adjacent ts"
| "concat_adjacent [] = []"

definition macro_value :: "macro_env \<Rightarrow> string \<Rightarrow> pp_token list" where
  "macro_value env n = concat_adjacent (expand env [] [Ident n])"

section \<open>The LEB128 codec and the byte cursor of the specification\<close>

text \<open>
  The repository's files hold the configuration header only. The codec and the
  cursor below are written from sections 4.1 and 4.2 of the specification; every
  definition says which of its sentences it follows.
\<close>

type_synonym byte = "8 word"

text \<open>
  Modelled from the spec: the error taxonomy of section 7 is not in the sources.
  These are the errors sections 4.1 and 4.2 give to the cursor and the codec;
  \<open>Overflow\<close> is the name of section 4.2 for what section 4.1 calls
  \<open>InvalidEncoding\<close> and section 7 \<open>MalformedEncoding\<close>.
\<close>

datatype error = TruncatedData | Overflow | OutOfRange

subsection \<open>LEB128\<close>

text \<open>
  Modelled from the spec: the decoder is not in the sources. "Continue while the
  high bit of each byte is set": the high bit of a byte.
\<close>

definition continues :: "byte \<Rightarrow> bool" where
  "continues b = bit b 7"

text \<open>
  Modelled from the spec: the decoder is not in the sources. "Accumulate 7 bits per
  byte": the low seven bits of a byte.
\<close>

definition payload :: "byte \<Rightarrow> nat" where
  "payload b = unat (b AND 0x7F)"

text \<open>
  Modelled from the spec: the decoder is not in the sources. "The sign bit of the
  final byte": the highest of its seven payload bits.
\<close>

definition sign_bit :: "byte \<Rightarrow> bool" where
  "sign_bit b = bit b 6"

text \<open>
  Modelled from the spec: the decoder is not in the sources. "Accumulate 7 bits per
  byte, low-order first, continue while the high bit of each byte is set", the same
  loop for the unsigned and the signed form ("identical accumulation"). It returns
  the accumulated value, the number of bits accumulated, the final byte and the bytes
  after it, and nothing when the bytes run out with the continuation bit still set.
  The value is accumulated without a bound and the two decoders compare it with the
  64-bit target afterwards: the tenth byte of a signed encoding carries seven bits,
  of which the signed target takes one and the sign extension the rest.
\<close>

fun accumulate :: "nat \<Rightarrow> nat \<Rightarrow> byte list \<Rightarrow> (nat \<times> nat \<times> byte \<times> byte list) option" where
  "accumulate shift acc [] = None"
| "accumulate shift acc (b # bs) =
     (let acc' = acc + payload b * 2 ^ shift in
      if continues b then accumulate (shift + 7) acc' bs
      else Some (acc', shift + 7, b, bs))"

text \<open>
  Modelled from the spec: the unsigned decoder is not in the sources. It "fails with
  Overflow if the accumulated value would exceed the target integer width (define
  width as 64 bits) or TruncatedData if the continuation bit is set on the last
  available byte"; on success it gives the value and the bytes that follow it.
\<close>

definition leb128_decode_unsigned :: "byte list \<Rightarrow> error + (64 word \<times> byte list)" where
  "leb128_decode_unsigned bs =
     (case accumulate 0 0 bs of
        None \<Rightarrow> Inl TruncatedData
      | Some (v, width, final, rest) \<Rightarrow>
          if v < 2 ^ 64 then Inr (word_of_nat v, rest) else Inl Overflow)"

text \<open>
  Modelled from the spec: the signed decoder is not in the sources. "Then sign-extend
  based on the sign bit of the final byte": the accumulated bits, read as a two's
  complement number of that many bits.
\<close>

definition sign_extend :: "nat \<Rightarrow> nat \<Rightarrow> byte \<Rightarrow> int" where
  "sign_extend v width final = (if sign_bit final then int v - 2 ^ width else int v)"

text \<open>
  Modelled from the spec: the signed decoder is not in the sources. "Identical
  accumulation, then sign-extend based on the sign bit of the final byte"; the
  overflow is that of the sign-extended value against the signed 64-bit target. The
  result is the two's complement word, read by \<open>sint\<close>.
\<close>

definition leb128_decode_signed :: "byte list \<Rightarrow> error + (64 word \<times> byte list)" where
  "leb128_decode_signed bs =
     (case accumulate 0 0 bs of
        None \<Rightarrow> Inl TruncatedData
      | Some (v, width, final, rest) \<Rightarrow>
          (let s = sign_extend v width final in
           if - (2 ^ 63) \<le> s \<and> s < 2 ^ 63 then Inr (word_of_int s, rest) else Inl Overflow))"

text \<open>
  Modelled from the spec: the encoder is not in the sources, and the specification
  names it only ("decode/encode", "the canonical encoding"). This is the canonical
  unsigned encoder: seven bits at a time, low-order first, the continuation bit on
  every byte but the last, stopping when no set bit is left.
\<close>

function uleb_encode :: "nat \<Rightarrow> byte list" where
  "uleb_encode n =
     (if n < 128 then [word_of_nat n]
      else word_of_nat (128 + n mod 128) # uleb_encode (n div 128))"
  by pat_completeness auto
termination
  by (relation "measure id") auto

text \<open>
  Modelled from the spec: the encoder is not in the sources, and the specification
  names it only. This is the canonical signed encoder: seven bits at a time of the
  two's complement number, stopping when the bits left are all copies of the sign
  bit of the byte just written.
\<close>

function sleb_encode :: "int \<Rightarrow> byte list" where
  "sleb_encode v =
     (if - 64 \<le> v \<and> v < 64 then [word_of_nat (nat (v mod 128))]
      else word_of_nat (128 + nat (v mod 128)) # sleb_encode (v div 128))"
  by pat_completeness auto
termination
  by (relation "measure (\<lambda>v. nat \<bar>v\<bar>)") auto

declare uleb_encode.simps [simp del] sleb_encode.simps [simp del]

text \<open>
  Modelled from the spec: the encoder is not in the sources. The unsigned encoder on
  the supported width, 64 bits.
\<close>

definition leb128_encode_unsigned :: "64 word \<Rightarrow> byte list" where
  "leb128_encode_unsigned w = uleb_encode (unat w)"

text \<open>
  Modelled from the spec: the encoder is not in the sources. The signed encoder on
  the supported width, 64 bits in two's complement.
\<close>

definition leb128_encode_signed :: "64 word \<Rightarrow> byte list" where
  "leb128_encode_signed w = sleb_encode (sint w)"

text \<open>
  Modelled from the spec: the condition of section 4.2 on the input of the decoder,
  "the accumulated value", as a function of that input: the number a byte sequence
  stands for, seven bits per byte, low-order first.
\<close>

fun leb_value :: "byte list \<Rightarrow> nat" where
  "leb_value [] = 0"
| "leb_value (b # bs) = payload b + 128 * leb_value bs"

text \<open>
  Modelled from the spec: the bytes a decoder of section 4.2 reads when it continues
  "while the high bit of each byte is set": those up to and including the first byte
  without the continuation bit.
\<close>

definition leb_unit :: "byte list \<Rightarrow> byte list" where
  "leb_unit bs = takeWhile continues bs @ take 1 (dropWhile continues bs)"



subsection \<open>The byte cursor\<close>

text \<open>
  Modelled from the spec: the cursor is not in the sources. "Byte order is
  configurable at construction (native/big/little)"; native is one of the two on
  any platform.
\<close>

datatype byte_order = LittleEndian | BigEndian

text \<open>
  Modelled from the spec: the cursor is not in the sources. It "wraps a byte range
  and a position", with the byte order chosen at construction.
\<close>

record byte_cursor =
  bytes :: "byte list"
  position :: nat
  endian :: byte_order




text \<open>
  Modelled from the spec: the cursor is not in the sources. Each read "advances
  position".
\<close>

definition advance :: "nat \<Rightarrow> byte_cursor \<Rightarrow> byte_cursor" where
  "advance n c = c\<lparr>position := position c + n\<rparr>"




















section \<open>Properties of the configuration header\<close>

subsection \<open>Lookup after a directive\<close>

lemma map_of_undef_macro:
  "map_of (undef_macro n env) m = (if m = n then None else map_of env m)"
  by (induction env) (auto simp: undef_macro_def)

lemma map_of_define_macro:
  "map_of (define_macro n body env) m = (if m = n then Some body else map_of env m)"
  by (simp add: define_macro_def map_of_undef_macro)

lemma is_defined_undef_macro:
  "is_defined (undef_macro n env) m = (m \<noteq> n \<and> is_defined env m)"
  by (simp add: is_defined_def map_of_undef_macro)

lemma is_defined_define_macro:
  "is_defined (define_macro n body env) m = (m = n \<or> is_defined env m)"
  by (simp add: is_defined_def map_of_define_macro)

lemma run_directives_append:
  "run_directives inc (xs @ ys) env = run_directives inc ys (run_directives inc xs env)"
  by (induction xs arbitrary: env) simp_all

lemmas config_sections =
  config_body_def posix_headers_def legacy_headers_def memory_mapping_def endianness_def
  compression_backends_def package_identity_def stack_direction_def

text \<open>
  The include guard: the first inclusion runs the body after defining the guard,
  any later inclusion leaves the macro environment as it is.
\<close>

lemma include_config_first:
  "\<not> is_defined env ''LIBDWARF_SWIFT_CONFIG_H'' \<Longrightarrow>
   include_config inc env =
     run_directives inc config_body (define_macro ''LIBDWARF_SWIFT_CONFIG_H'' [] env)"
  by (simp add: include_config_def config_h_def)

lemma include_config_again:
  "is_defined env ''LIBDWARF_SWIFT_CONFIG_H'' \<Longrightarrow> include_config inc env = env"
  by (simp add: include_config_def config_h_def)

subsection \<open>Endianness\<close>

text \<open>
  Claim C8. After config.h has been included (its guard was not defined before),
  \<open>WORDS_BIGENDIAN\<close> is defined, with the replacement list \<open>1\<close>, if and only if
  \<open>__BIG_ENDIAN__\<close> was defined when the header was included; in every other case
  it is undefined afterwards, whatever it was before. The system header
  \<open>stdint.h\<close>, included first, is assumed not to define or undefine
  \<open>__BIG_ENDIAN__\<close>, which is the compiler's to predefine.
\<close>

theorem config_words_bigendian:
  assumes guard: "\<not> is_defined env ''LIBDWARF_SWIFT_CONFIG_H''"
    and stdint: "\<And>e. is_defined (inc ''stdint.h'' e) ''__BIG_ENDIAN__'' =
                     is_defined e ''__BIG_ENDIAN__''"
  shows "map_of (include_config inc env) ''WORDS_BIGENDIAN'' =
           (if is_defined env ''__BIG_ENDIAN__'' then Some [Number ''1''] else None) \<and>
         is_defined (include_config inc env) ''WORDS_BIGENDIAN'' =
           is_defined env ''__BIG_ENDIAN__''"
  using guard
  by (simp add: include_config_first config_sections stdint
      is_defined_define_macro is_defined_undef_macro map_of_define_macro map_of_undef_macro)

text \<open>
  A big-endian compiler and a little-endian one whose command line defines
  \<open>WORDS_BIGENDIAN\<close> by hand; \<open>stdint.h\<close> here defines \<open>INT8_MAX\<close>.
\<close>

theorem config_words_bigendian_witness:
  "\<not> is_defined [(''__BIG_ENDIAN__'', [Number ''1''])] ''LIBDWARF_SWIFT_CONFIG_H'' \<and>
   \<not> is_defined [(''WORDS_BIGENDIAN'', [Number ''1''])] ''LIBDWARF_SWIFT_CONFIG_H'' \<and>
   map_of (include_config (\<lambda>h. define_macro ''INT8_MAX'' [Number ''127''])
             [(''__BIG_ENDIAN__'', [Number ''1''])]) ''WORDS_BIGENDIAN'' = Some [Number ''1''] \<and>
   map_of (include_config (\<lambda>h. define_macro ''INT8_MAX'' [Number ''127''])
             [(''WORDS_BIGENDIAN'', [Number ''1''])]) ''WORDS_BIGENDIAN'' = None"
  using config_words_bigendian [of "[(''__BIG_ENDIAN__'', [Number ''1''])]"
          "\<lambda>h. define_macro ''INT8_MAX'' [Number ''127'']"]
        config_words_bigendian [of "[(''WORDS_BIGENDIAN'', [Number ''1''])]"
          "\<lambda>h. define_macro ''INT8_MAX'' [Number ''127'']"]
  by (simp add: is_defined_def map_of_define_macro)

subsection \<open>Compression backends\<close>

text \<open>
  Claim C9. After config.h has been included (its guard was not defined before),
  none of \<open>HAVE_ZLIB\<close>, \<open>HAVE_ZLIB_H\<close>, \<open>HAVE_ZSTD\<close>, \<open>HAVE_ZSTD_H\<close> is defined,
  whatever the macro environment was before and whatever \<open>stdint.h\<close> does.
\<close>

theorem config_compression_disabled:
  assumes guard: "\<not> is_defined env ''LIBDWARF_SWIFT_CONFIG_H''"
  shows "\<not> is_defined (include_config inc env) ''HAVE_ZLIB'' \<and>
         \<not> is_defined (include_config inc env) ''HAVE_ZLIB_H'' \<and>
         \<not> is_defined (include_config inc env) ''HAVE_ZSTD'' \<and>
         \<not> is_defined (include_config inc env) ''HAVE_ZSTD_H''"
  using guard
  by (simp add: include_config_first config_sections
      is_defined_define_macro is_defined_undef_macro)

text \<open>A build whose command line defines \<open>HAVE_ZLIB\<close> and \<open>HAVE_ZSTD\<close>.\<close>

theorem config_compression_disabled_witness:
  "\<not> is_defined [(''HAVE_ZLIB'', [Number ''1'']), (''HAVE_ZSTD'', [Number ''1''])]
       ''LIBDWARF_SWIFT_CONFIG_H'' \<and>
   is_defined [(''HAVE_ZLIB'', [Number ''1'']), (''HAVE_ZSTD'', [Number ''1''])] ''HAVE_ZLIB'' \<and>
   \<not> is_defined (include_config (\<lambda>h e. e)
        [(''HAVE_ZLIB'', [Number ''1'']), (''HAVE_ZSTD'', [Number ''1''])]) ''HAVE_ZLIB'' \<and>
   \<not> is_defined (include_config (\<lambda>h e. e)
        [(''HAVE_ZLIB'', [Number ''1'']), (''HAVE_ZSTD'', [Number ''1''])]) ''HAVE_ZSTD''"
  using config_compression_disabled
    [of "[(''HAVE_ZLIB'', [Number ''1'']), (''HAVE_ZSTD'', [Number ''1''])]" "\<lambda>h e. e"]
  by (simp add: is_defined_def)

subsection \<open>Package identity\<close>

text \<open>
  Claim C10. After config.h has been included (its guard was not defined before),
  the replacement list of \<open>PACKAGE_STRING\<close> is \<open>PACKAGE\<close>, the string literal of one
  space, \<open>PACKAGE_VERSION\<close>; macro replacement and the concatenation of adjacent
  string literals turn it into the string literal \<open>libdwarf 0.0.0\<close>, which is the
  concatenation of the values of \<open>PACKAGE\<close>, the space and \<open>PACKAGE_VERSION\<close>.
\<close>

theorem config_package_string:
  assumes guard: "\<not> is_defined env ''LIBDWARF_SWIFT_CONFIG_H''"
  shows "map_of (include_config inc env) ''PACKAGE_STRING'' =
           Some [Ident ''PACKAGE'', StringLit '' '', Ident ''PACKAGE_VERSION''] \<and>
         macro_value (include_config inc env) ''PACKAGE_STRING'' =
           [StringLit ''libdwarf 0.0.0''] \<and>
         macro_value (include_config inc env) ''PACKAGE_STRING'' =
           concat_adjacent (macro_value (include_config inc env) ''PACKAGE'' @
             StringLit '' '' # macro_value (include_config inc env) ''PACKAGE_VERSION'')"
  using guard
  by (simp add: macro_value_def include_config_first config_sections
      map_of_define_macro map_of_undef_macro)

text \<open>A build whose command line defines \<open>PACKAGE\<close> differently.\<close>

theorem config_package_string_witness:
  "\<not> is_defined [(''PACKAGE'', [StringLit ''other''])] ''LIBDWARF_SWIFT_CONFIG_H'' \<and>
   macro_value (include_config (\<lambda>h e. e) [(''PACKAGE'', [StringLit ''other''])])
     ''PACKAGE_STRING'' = [StringLit ''libdwarf 0.0.0'']"
  using config_package_string [of "[(''PACKAGE'', [StringLit ''other''])]" "\<lambda>h e. e"]
  by (simp add: is_defined_def)

section \<open>Properties of the LEB128 codec\<close>

subsection \<open>The three fields of a byte\<close>

lemma payload_unat: "payload b = unat b mod 128"
proof -
  have "b AND 0x7F = take_bit 7 b"
    by (simp add: take_bit_eq_mask mask_eq_exp_minus_1)
  then have "payload b = take_bit 7 (unat b)"
    by (simp add: payload_def unsigned_take_bit_eq)
  then show ?thesis by (simp add: take_bit_eq_mod)
qed

lemma payload_lt: "payload b < 128"
  by (simp add: payload_unat)

lemma unat_byte_lt: "unat (b :: byte) < 256"
  using unsigned_less [of b] by simp

lemma odd_div_128: "n < 256 \<Longrightarrow> odd (n div 128) = (128 \<le> n)" for n :: nat
proof (cases "n < 128")
  case True
  then show ?thesis by simp
next
  case False
  assume "n < 256"
  with False have "n div 128 = 1" by (intro div_nat_eqI) simp_all
  with False show ?thesis by simp
qed

lemma odd_div_64: "odd (n div 64) = (64 \<le> n mod 128)" for n :: nat
proof -
  have split: "n mod 128 = 64 * (n div 64 mod 2) + n mod 64"
    using mod_mult2_eq [of n 64 2] by simp
  have "n mod 64 < 64" by simp
  show ?thesis
  proof (cases "n div 64 mod 2 = 0")
    case True
    with split have "n mod 128 < 64" by simp
    with True show ?thesis by (simp add: even_iff_mod_2_eq_zero)
  next
    case False
    then have one: "n div 64 mod 2 = 1" by simp
    with split have "64 \<le> n mod 128" by simp
    with one show ?thesis by (simp add: odd_iff_mod_2_eq_one)
  qed
qed

lemma continues_unat: "continues b = (128 \<le> unat b)"
proof -
  have "bit (unat b) 7 = bit b 7"
    by (simp add: bit_unsigned_iff)
  then have "continues b = odd (unat b div 128)"
    by (simp add: continues_def bit_iff_odd)
  then show ?thesis
    by (simp add: odd_div_128 [OF unat_byte_lt])
qed

lemma sign_bit_payload: "sign_bit b = (64 \<le> payload b)"
proof -
  have "bit (unat b) 6 = bit b 6"
    by (simp add: bit_unsigned_iff)
  then have "sign_bit b = odd (unat b div 64)"
    by (simp add: sign_bit_def bit_iff_odd)
  then show ?thesis
    by (simp only: odd_div_64 payload_unat)
qed

lemma unat_byte_of_nat: "unat (word_of_nat k :: byte) = k mod 256"
  by (simp add: unat_of_nat)

lemma low_byte:
  assumes "k < 128"
  shows "payload (word_of_nat k) = k" and "\<not> continues (word_of_nat k)"
  using assms by (simp_all only: payload_unat continues_unat unat_byte_of_nat) simp_all

lemma high_byte:
  assumes "k < 128"
  shows "payload (word_of_nat (128 + k)) = k" and "continues (word_of_nat (128 + k))"
  using assms by (simp_all only: payload_unat continues_unat unat_byte_of_nat) simp_all

subsection \<open>Decoding what the encoders write\<close>

lemma uleb_encode_nonempty: "uleb_encode n \<noteq> []"
  by (subst uleb_encode.simps) simp

lemma uleb_encode_roundtrip:
  "accumulate s a (uleb_encode n @ rest) =
     Some (a + n * 2 ^ s, s + 7 * length (uleb_encode n), last (uleb_encode n), rest)"
proof (induction n arbitrary: s a rule: uleb_encode.induct)
  case (1 n)
  show ?case
  proof (cases "n < 128")
    case True
    then show ?thesis
      by (simp add: uleb_encode.simps [of n] low_byte)
  next
    case False
    define q r where "q = n div 128" and "r = n mod 128"
    have n: "n = r + 128 * q" and r: "r < 128"
      by (simp_all add: q_def r_def)
    have enc: "uleb_encode n = word_of_nat (128 + r) # uleb_encode q"
      using False by (simp add: uleb_encode.simps [of n] q_def r_def)
    have IH: "accumulate (s + 7) (a + r * 2 ^ s) (uleb_encode q @ rest) =
        Some (a + r * 2 ^ s + q * 2 ^ (s + 7), s + 7 + 7 * length (uleb_encode q),
              last (uleb_encode q), rest)"
      using "1.IH" [OF False, of "s + 7" "a + r * 2 ^ s"] by (simp add: q_def)
    have val: "a + r * 2 ^ s + q * 2 ^ (s + 7) = a + n * 2 ^ s"
      unfolding n by (simp add: power_add algebra_simps)
    show ?thesis
      unfolding enc using IH val high_byte [OF r] uleb_encode_nonempty [of q]
      by simp
  qed
qed

lemma sleb_encode_roundtrip:
  "\<exists>a' f. accumulate s a (sleb_encode v @ rest) =
            Some (a', s + 7 * length (sleb_encode v), f, rest) \<and>
          sign_extend a' (s + 7 * length (sleb_encode v)) f = int a + v * 2 ^ s"
proof (induction v arbitrary: s a rule: sleb_encode.induct)
  case (1 v)
  define q r where "q = v div 128" and "r = nat (v mod 128)"
  have v: "v = int r + 128 * q" and r: "r < 128"
    by (simp_all add: q_def r_def)
  show ?case
  proof (cases "- 64 \<le> v \<and> v < 64")
    case True
    have enc: "sleb_encode v = [word_of_nat r]"
      using True by (simp add: sleb_encode.simps [of v] r_def)
    have q: "q = (if v < 0 then - 1 else 0)"
      using True v r by auto
    have "(64 \<le> r) = (v < 0)"
    proof (cases "v < 0")
      case True
      with q v have "v = int r - 128" by simp
      with \<open>- 64 \<le> v \<and> v < 64\<close> True show ?thesis by linarith
    next
      case False
      with q v have "v = int r" by simp
      with \<open>- 64 \<le> v \<and> v < 64\<close> False show ?thesis by linarith
    qed
    then have sgn: "sign_bit (word_of_nat r :: byte) = (v < 0)"
      by (simp only: sign_bit_payload low_byte [OF r])
    have "sign_extend (a + r * 2 ^ s) (s + 7) (word_of_nat r) = int a + v * 2 ^ s"
    proof (cases "v < 0")
      case True
      with q v have eq: "v = int r - 128" by simp
      have "sign_extend (a + r * 2 ^ s) (s + 7) (word_of_nat r) =
          int a + int r * 2 ^ s - 128 * 2 ^ s"
        using sgn True by (simp add: sign_extend_def power_add)
      also have "\<dots> = int a + v * 2 ^ s"
        unfolding eq by (simp add: algebra_simps)
      finally show ?thesis .
    next
      case False
      with q v have "v = int r" by simp
      then show ?thesis using sgn False
        by (simp add: sign_extend_def)
    qed
    then show ?thesis
      by (simp add: enc low_byte [OF r])
  next
    case False
    have enc: "sleb_encode v = word_of_nat (128 + r) # sleb_encode q"
      using False by (simp add: sleb_encode.simps [of v] q_def r_def)
    from "1.IH" [OF False, of "s + 7" "a + r * 2 ^ s"]
    obtain a' f where acc: "accumulate (s + 7) (a + r * 2 ^ s) (sleb_encode q @ rest) =
        Some (a', s + 7 + 7 * length (sleb_encode q), f, rest)"
      and sx: "sign_extend a' (s + 7 + 7 * length (sleb_encode q)) f =
        int (a + r * 2 ^ s) + q * 2 ^ (s + 7)"
      unfolding q_def by blast
    have "int (a + r * 2 ^ s) + q * 2 ^ (s + 7) = int a + v * 2 ^ s"
      unfolding v by (simp add: power_add algebra_simps)
    with sx have "sign_extend a' (s + 7 + 7 * length (sleb_encode q)) f = int a + v * 2 ^ s"
      by simp
    then show ?thesis
      unfolding enc using acc high_byte [OF r] by (simp add: add.assoc)
  qed
qed

subsection \<open>The decoders in closed form\<close>

lemma leb_unit_Cons:
  "leb_unit (b # bs) = (if continues b then b # leb_unit bs else [b])"
  by (simp add: leb_unit_def)

lemma leb_unit_nonempty: "\<not> list_all continues bs \<Longrightarrow> leb_unit bs \<noteq> []"
  by (induction bs) (simp_all add: leb_unit_Cons)

lemma leb_unit_Nil: "leb_unit [] = []"
  by (simp add: leb_unit_def)

lemma length_leb_unit: "length (leb_unit bs) \<le> length bs"
  by (induction bs) (simp_all add: leb_unit_Cons leb_unit_Nil)

text \<open>The accumulation loop in closed form.\<close>

lemma accumulate_eq:
  "accumulate s a bs =
     (if list_all continues bs then None
      else Some (a + 2 ^ s * leb_value (leb_unit bs), s + 7 * length (leb_unit bs),
                 last (leb_unit bs), drop (length (leb_unit bs)) bs))"
proof (induction bs arbitrary: s a)
  case Nil
  show ?case by simp
next
  case (Cons b bs)
  show ?case
  proof (cases "continues b")
    case False
    then show ?thesis by (simp add: leb_unit_Cons)
  next
    case True
    show ?thesis
    proof (cases "list_all continues bs")
      case all: True
      with True Cons.IH show ?thesis by simp
    next
      case False
      have "a + payload b * 2 ^ s + 2 ^ (s + 7) * leb_value (leb_unit bs) =
            a + 2 ^ s * (payload b + 128 * leb_value (leb_unit bs))"
        by (simp add: power_add algebra_simps)
      with True False Cons.IH [of "s + 7" "a + payload b * 2 ^ s"] leb_unit_nonempty [OF False]
      show ?thesis by (simp add: leb_unit_Cons add.assoc)
    qed
  qed
qed

lemma leb_value_lt: "leb_value xs < 2 ^ (7 * length xs)"
proof (induction xs)
  case Nil
  show ?case by simp
next
  case (Cons b xs)
  have "payload b + 128 * leb_value xs < 128 + 128 * leb_value xs"
    using payload_lt [of b] by simp
  also have "\<dots> \<le> 128 * 2 ^ (7 * length xs)"
    using Cons.IH by simp
  finally show ?case by (simp add: power_add)
qed

lemma leb_value_snoc:
  "leb_value (xs @ [b]) = leb_value xs + payload b * 2 ^ (7 * length xs)"
  by (induction xs) (simp_all add: power_add algebra_simps)

lemma leb_value_last:
  assumes "xs \<noteq> []"
  shows "leb_value xs = leb_value (butlast xs) + payload (last xs) * 2 ^ (7 * (length xs - 1))"
  using leb_value_snoc [of "butlast xs" "last xs"] assms by simp

subsection \<open>The length of an encoding\<close>

lemma uleb_encode_length: "n < 2 ^ (7 * Suc k) \<Longrightarrow> length (uleb_encode n) \<le> Suc k"
proof (induction k arbitrary: n)
  case 0
  then show ?case by (simp add: uleb_encode.simps [of n])
next
  case (Suc k)
  show ?case
  proof (cases "n < 128")
    case True
    then show ?thesis by (simp add: uleb_encode.simps [of n])
  next
    case False
    from Suc.prems have "n < 2 ^ (7 * Suc k) * 128" by (simp add: power_add)
    then have "n div 128 < 2 ^ (7 * Suc k)" by (rule less_mult_imp_div_less)
    from Suc.IH [OF this] show ?thesis using False by (simp add: uleb_encode.simps [of n])
  qed
qed

lemma sleb_encode_length:
  "- (2 ^ (7 * k + 6)) \<le> v \<Longrightarrow> v < 2 ^ (7 * k + 6) \<Longrightarrow> length (sleb_encode v) \<le> Suc k"
proof (induction k arbitrary: v)
  case 0
  then show ?case by (simp add: sleb_encode.simps [of v])
next
  case (Suc k)
  show ?case
  proof (cases "- 64 \<le> v \<and> v < 64")
    case True
    then show ?thesis by (simp add: sleb_encode.simps [of v])
  next
    case False
    define p :: int where "p = 2 ^ (7 * k + 6)"
    have bounds: "- (p * 128) \<le> v" "v < p * 128"
      using Suc.prems by (simp_all add: p_def power_add)
    have lo: "- p \<le> v div 128"
    proof -
      have "(- p * 128) div 128 \<le> v div 128"
        using bounds(1) by (intro zdiv_mono1) simp_all
      then show ?thesis by simp
    qed
    have hi: "v div 128 < p"
      using bounds(2) by (simp add: div_less_iff_less_mult)
    from Suc.IH [of "v div 128"] lo hi
    show ?thesis using False by (simp add: sleb_encode.simps [of v] p_def)
  qed
qed

subsection \<open>Round trip and minimal length\<close>

lemma leb128_decode_unsigned_eq:
  "leb128_decode_unsigned bs =
     (if list_all continues bs then Inl TruncatedData
      else if leb_value (leb_unit bs) < 2 ^ 64
        then Inr (word_of_nat (leb_value (leb_unit bs)), drop (length (leb_unit bs)) bs)
        else Inl Overflow)"
  by (simp add: leb128_decode_unsigned_def accumulate_eq)

lemma leb128_decode_signed_eq:
  "leb128_decode_signed bs =
     (if list_all continues bs then Inl TruncatedData
      else let s = sign_extend (leb_value (leb_unit bs)) (7 * length (leb_unit bs))
                     (last (leb_unit bs))
        in if - (2 ^ 63) \<le> s \<and> s < 2 ^ 63
           then Inr (word_of_int s, drop (length (leb_unit bs)) bs)
           else Inl Overflow)"
  by (simp add: leb128_decode_signed_def accumulate_eq)

lemma unsigned_roundtrip:
  "leb128_decode_unsigned (leb128_encode_unsigned w @ rest) = Inr (w, rest)"
proof -
  have "unat w < 2 ^ 64" using unsigned_less [of w] by simp
  then show ?thesis
    by (simp add: leb128_decode_unsigned_def leb128_encode_unsigned_def uleb_encode_roundtrip)
qed

lemma signed_roundtrip:
  "leb128_decode_signed (leb128_encode_signed w @ rest) = Inr (w, rest)"
proof -
  obtain a' f where acc: "accumulate 0 0 (sleb_encode (sint w) @ rest) =
      Some (a', 7 * length (sleb_encode (sint w)), f, rest)"
    and sx: "sign_extend a' (7 * length (sleb_encode (sint w))) f = sint w"
    using sleb_encode_roundtrip [of 0 0 "sint w" rest] by auto
  have "- (2 ^ 63) \<le> sint w" "sint w < 2 ^ 63"
    using sint_ge [of w] sint_lt [of w] by simp_all
  then show ?thesis
    by (simp add: leb128_decode_signed_def leb128_encode_signed_def acc sx)
qed

lemma unsigned_minimal:
  assumes "leb128_decode_unsigned bs = Inr (w, rest)"
  shows "length (leb128_encode_unsigned w) \<le> length bs - length rest"
proof -
  let ?u = "leb_unit bs"
  from assms have fin: "\<not> list_all continues bs" and fits: "leb_value ?u < 2 ^ 64"
    and w: "w = word_of_nat (leb_value ?u)" and rest: "rest = drop (length ?u) bs"
    by (auto simp: leb128_decode_unsigned_eq split: if_splits)
  from fin have "?u \<noteq> []" by (rule leb_unit_nonempty)
  then obtain k where k: "length ?u = Suc k" by (cases ?u) auto
  from fits have "unat w = leb_value ?u"
    unfolding w by (simp add: unat_of_nat)
  moreover have "leb_value ?u < 2 ^ (7 * Suc k)"
    using leb_value_lt [of ?u] by (simp only: k)
  ultimately have "length (leb128_encode_unsigned w) \<le> Suc k"
    by (simp add: leb128_encode_unsigned_def uleb_encode_length)
  moreover have "length bs - length rest = Suc k"
    using length_leb_unit [of bs] by (simp add: rest k)
  ultimately show ?thesis by simp
qed

lemma sign_extend_bounds:
  assumes "length u = Suc k"
  shows "- (2 ^ (7 * k + 6)) \<le> sign_extend (leb_value u) (7 * length u) (last u)"
    and "sign_extend (leb_value u) (7 * length u) (last u) < 2 ^ (7 * k + 6)"
proof -
  define lo hi where "lo = leb_value (butlast u)" and "hi = payload (last u)"
  define p :: nat where "p = 2 ^ (7 * k)"
  from assms have "u \<noteq> []" by auto
  then have v: "leb_value u = lo + hi * p"
    using leb_value_last [of u] assms by (simp add: lo_def hi_def p_def)
  have lo: "lo < p"
    using leb_value_lt [of "butlast u"] assms by (simp add: lo_def p_def)
  have hi: "hi < 128" by (simp add: hi_def payload_lt)
  have w: "(2 :: int) ^ (7 * length u) = 128 * int p"
    by (simp add: assms p_def power_add)
  have p6: "(2 :: int) ^ (7 * k + 6) = 64 * int p"
    by (simp add: p_def power_add)
  have sx: "sign_extend (leb_value u) (7 * length u) (last u) =
      (if 64 \<le> hi then int lo + int hi * int p - 128 * int p else int lo + int hi * int p)"
    by (simp add: sign_extend_def sign_bit_payload v w hi_def)
  show "- (2 ^ (7 * k + 6)) \<le> sign_extend (leb_value u) (7 * length u) (last u)"
  proof (cases "64 \<le> hi")
    case True
    then have "64 * int p \<le> int hi * int p" by (simp add: mult_right_mono)
    with True show ?thesis unfolding sx p6 by simp
  next
    case False
    have "0 \<le> int lo + int hi * int p" by simp
    moreover have "- (64 * int p) \<le> 0" by simp
    ultimately have "- (64 * int p) \<le> int lo + int hi * int p" by (rule order_trans [rotated])
    with False show ?thesis unfolding sx p6 by simp
  qed
  show "sign_extend (leb_value u) (7 * length u) (last u) < 2 ^ (7 * k + 6)"
  proof (cases "64 \<le> hi")
    case True
    then have sxT: "sign_extend (leb_value u) (7 * length u) (last u) =
        int lo + int hi * int p - 128 * int p"
      by (simp add: sx)
    have "hi * p \<le> 127 * p" using hi by (intro mult_right_mono) simp_all
    then have "int hi * int p \<le> 127 * int p" by (metis of_nat_le_iff of_nat_mult of_nat_numeral)
    moreover have "int lo < int p" using lo by simp
    ultimately show ?thesis unfolding sxT p6 by linarith
  next
    case False
    then have sxF: "sign_extend (leb_value u) (7 * length u) (last u) = int lo + int hi * int p"
      by (simp add: sx)
    have "hi * p \<le> 63 * p" using False by (intro mult_right_mono) simp_all
    then have "int hi * int p \<le> 63 * int p" by (metis of_nat_le_iff of_nat_mult of_nat_numeral)
    moreover have "int lo < int p" using lo by simp
    ultimately show ?thesis unfolding sxF p6 by linarith
  qed
qed

lemma signed_minimal:
  assumes "leb128_decode_signed bs = Inr (w, rest)"
  shows "length (leb128_encode_signed w) \<le> length bs - length rest"
proof -
  let ?u = "leb_unit bs"
  let ?s = "sign_extend (leb_value ?u) (7 * length ?u) (last ?u)"
  from assms have fin: "\<not> list_all continues bs"
    and fits: "- (2 ^ 63) \<le> ?s" "?s < 2 ^ 63"
    and w: "w = word_of_int ?s" and rest: "rest = drop (length ?u) bs"
    by (auto simp: leb128_decode_signed_eq Let_def split: if_splits)
  from fin have "?u \<noteq> []" by (rule leb_unit_nonempty)
  then obtain k where k: "length ?u = Suc k" by (cases ?u) auto
  from fits have "signed_take_bit 63 ?s = ?s"
    by (intro signed_take_bit_int_eq_self) simp_all
  then have "sint w = ?s"
    unfolding w by (simp add: sint_sbintrunc')
  then have "length (leb128_encode_signed w) \<le> Suc k"
    using sign_extend_bounds [OF k]
    by (simp add: leb128_encode_signed_def sleb_encode_length)
  moreover have "length bs - length rest = Suc k"
    using length_leb_unit [of bs] by (simp add: rest k)
  ultimately show ?thesis by simp
qed

text \<open>
  Claim C1. For every 64-bit value, unsigned or signed (two's complement), decoding
  its encoding gives the value back and leaves the bytes that follow the encoding
  untouched; and the encoding is of minimal length: no byte sequence that decodes to
  the value is read in fewer bytes than the encoding has, so the encoding has no
  continuation byte it could do without.
\<close>

theorem leb128_roundtrip_minimal:
  "leb128_decode_unsigned (leb128_encode_unsigned w @ rest) = Inr (w, rest) \<and>
   leb128_decode_signed (leb128_encode_signed w @ rest) = Inr (w, rest) \<and>
   (\<forall>bs rest'. leb128_decode_unsigned bs = Inr (w, rest') \<longrightarrow>
      length (leb128_encode_unsigned w) \<le> length bs - length rest') \<and>
   (\<forall>bs rest'. leb128_decode_signed bs = Inr (w, rest') \<longrightarrow>
      length (leb128_encode_signed w) \<le> length bs - length rest')"
  using unsigned_roundtrip signed_roundtrip unsigned_minimal signed_minimal by blast

text \<open>
  300 is two bytes long and also decodes from three; \<open>-1\<close> is one byte long and also
  decodes from two; the least signed value takes ten bytes and comes back.
\<close>

theorem leb128_roundtrip_minimal_witness:
  "leb128_decode_unsigned [0xAC, 0x82, 0x00] = Inr (300, []) \<and>
   length (leb128_encode_unsigned 300) \<le> 3 \<and>
   leb128_decode_unsigned (leb128_encode_unsigned 300 @ [0x2A]) = Inr (300, [0x2A]) \<and>
   leb128_decode_signed [0xFF, 0x7F] = Inr (- 1, []) \<and>
   length (leb128_encode_signed (- 1)) \<le> 2 \<and>
   leb128_decode_signed (leb128_encode_signed (- (2 ^ 63))) = Inr (- (2 ^ 63), [])"
proof -
  have u: "leb128_decode_unsigned [0xAC, 0x82, 0x00] = Inr (300, [])"
    by (simp add: leb128_decode_unsigned_def payload_unat continues_unat)
  have s: "leb128_decode_signed [0xFF, 0x7F] = Inr (- 1, [])"
    by (simp add: leb128_decode_signed_def payload_unat continues_unat sign_extend_def
        sign_bit_payload)
  from leb128_roundtrip_minimal [of 300 "[0x2A]"] u
  have "length (leb128_encode_unsigned 300) \<le> length [0xAC, 0x82, 0x00 :: byte] - length ([] :: byte list)"
    and "leb128_decode_unsigned (leb128_encode_unsigned 300 @ [0x2A]) = Inr (300, [0x2A])"
    by blast+
  moreover from leb128_roundtrip_minimal [of "- 1" "[]"] s
  have "length (leb128_encode_signed (- 1)) \<le> length [0xFF, 0x7F :: byte] - length ([] :: byte list)"
    by blast
  moreover from leb128_roundtrip_minimal [of "- (2 ^ 63)" "[]"]
  have "leb128_decode_signed (leb128_encode_signed (- (2 ^ 63))) = Inr (- (2 ^ 63), [])"
    by simp
  ultimately show ?thesis using u s by simp
qed

subsection \<open>The failures of the unsigned decoder\<close>






section \<open>Properties of the byte cursor\<close>

subsection \<open>Decoding depends on the bytes read only\<close>









subsection \<open>Lists\<close>




subsection \<open>The reads one by one\<close>


lemma advance_fields [simp]:
  "bytes (advance n c) = bytes c" "endian (advance n c) = endian c"
  "position (advance n c) = position c + n"
  by (simp_all add: advance_def)












subsection \<open>Reads and seeks stay inside the section\<close>




end
